theory Spec2Isabelle
  imports Main "HOL-Library.Word" "HOL-Library.AList"
begin

section \<open>The index of osync: data model\<close>

text \<open>
  The Go package \<open>internal/index\<close> keeps, for one directory, a map from relative file
  paths to the SHA-1 fingerprint of the file content:
  \<^verbatim>\<open>
  type Index struct {
      directory string
      files     map[string]string
  }
  \<close>
  Go strings are byte sequences, as \<open>string\<close> is here. A Go map is a finite partial
  function.
\<close>

record Index =
  directory :: string
  files :: "string \<rightharpoonup> string"

text \<open>
  Reading a Go map at a key that is absent gives the zero value of the element type, the
  empty string here (\<open>i.files[file]\<close>).
\<close>

definition go_index :: "(string \<rightharpoonup> string) \<Rightarrow> string \<Rightarrow> string" where
  "go_index m k = (case m k of None \<Rightarrow> [] | Some v \<Rightarrow> v)"

text \<open>
  \<open>for k, v := range m\<close> visits every entry of the map once, in an order that the
  language leaves open and that may change from one loop to the next. The order is
  therefore an argument of every function that ranges over a map: \<open>ranges m kvs\<close> says
  that \<open>kvs\<close> is one of the sequences the loop over \<open>m\<close> may produce.
\<close>

definition ranges :: "(string \<rightharpoonup> string) \<Rightarrow> (string \<times> string) list \<Rightarrow> bool" where
  "ranges m kvs \<longleftrightarrow> distinct (map fst kvs) \<and> map_of kvs = m"

section \<open>Diff\<close>

text \<open>
  \<^verbatim>\<open>
  func (i Index) Diff(other Index) ([]string, []string) {
      var changedFiles []string
      var deletedFiles []string
      for file, sum := range other.files {
          // if file is not in i.files it will return ""
          // the condition check: 'if this file is not in our index, or if the checksum has changed'
          if i.files[file] != sum {
              changedFiles = append(changedFiles, file)
          }
      }
      for file, _ := range i.files {
          if _, exist := other.files[file]; !exist {
              deletedFiles = append(deletedFiles, file)
          }
      }
      return changedFiles, deletedFiles
  }
  \<close>
  The state of the call is the two indexes and the two slices; each loop is a recursion
  over the sequence its \<open>range\<close> produces.
\<close>

record diff_state =
  d_i :: Index
  d_other :: Index
  changedFiles :: "string list"
  deletedFiles :: "string list"

fun changed_loop :: "(string \<times> string) list \<Rightarrow> diff_state \<Rightarrow> diff_state" where
  "changed_loop [] st = st"
| "changed_loop ((file, hsum) # rest) st =
     changed_loop rest
       (if go_index (files (d_i st)) file \<noteq> hsum
        then st\<lparr>changedFiles := changedFiles st @ [file]\<rparr>
        else st)"

fun deleted_loop :: "(string \<times> string) list \<Rightarrow> diff_state \<Rightarrow> diff_state" where
  "deleted_loop [] st = st"
| "deleted_loop ((file, hsum) # rest) st =
     deleted_loop rest
       (case files (d_other st) file of
          None \<Rightarrow> st\<lparr>deletedFiles := deletedFiles st @ [file]\<rparr>
        | Some _ \<Rightarrow> st)"

text \<open>
  \<open>Diff_run\<close> is the whole call, from the initial state (both slices nil) to the state
  at the \<open>return\<close>; \<open>range_other\<close> and \<open>range_i\<close> are the sequences of the first and of
  the second loop. \<open>Diff\<close> is the pair of slices returned.
\<close>

definition Diff_run ::
  "Index \<Rightarrow> Index \<Rightarrow> (string \<times> string) list \<Rightarrow> (string \<times> string) list \<Rightarrow> diff_state" where
  "Diff_run i other range_other range_i =
     deleted_loop range_i
       (changed_loop range_other
          \<lparr>d_i = i, d_other = other, changedFiles = [], deletedFiles = []\<rparr>)"

definition Diff ::
  "Index \<Rightarrow> Index \<Rightarrow> (string \<times> string) list \<Rightarrow> (string \<times> string) list
     \<Rightarrow> string list \<times> string list" where
  "Diff i other range_other range_i =
     (let st = Diff_run i other range_other range_i
      in (changedFiles st, deletedFiles st))"

section \<open>Results, errors and the file system\<close>

text \<open>
  A call of the package ends in one of four ways: it returns a value with a nil error, it
  returns an error, it panics (a run-time panic of Go, which no function of the package
  recovers), or it ends the process (\<open>log.Fatal\<close>, which prints and calls \<open>os.Exit(1)\<close>).
\<close>

datatype error = ENOENT | EACCES | ENOTDIR | EISDIR | ENXIO | EIO | ENOSPC | ErrTooLong

datatype panic = IndexOutOfRange nat nat | NilDereference

datatype 'a result = Ok 'a | Error error | Panic panic | Exit error

text \<open>
  The file system, as far as the package sees it, is the tree found at the path
  \<open>directory\<close>. A node is a regular file with its bytes; a regular file that cannot be
  opened (\<open>NoOpen\<close>: \<open>os.Open\<close> and \<open>os.Create\<close> return the error); a regular file that
  opens and whose reads fail (\<open>NoRead\<close>); a directory with its entries, in the order
  \<open>readdir\<close> lists them, file names distinct; a directory that cannot be listed or
  searched (\<open>Unlistable\<close>); an object that is neither a regular file nor a directory
  (\<open>Special\<close>, here a socket, which \<open>open\<close> refuses with \<open>ENXIO\<close>); or a name for
  which \<open>stat\<close> and \<open>lstat\<close> fail (\<open>NoStat\<close>; \<open>NoStat ENOENT\<close> as the tree itself is a
  directory that does not exist). \<open>room\<close> is the number of bytes the device still
  accepts before a write fails with \<open>ENOSPC\<close> (\<open>None\<close>: no limit).
\<close>

datatype node =
    Regular string
  | NoOpen error
  | NoRead error
  | Directory "(string \<times> node) list"
  | Unlistable error
  | Special
  | NoStat error

record fs =
  root :: node
  room :: "nat option"

text \<open>
  \<^verbatim>\<open>
  const (
      indexFile  = ".osync"
      ignoreFile = indexFile + "ignore"
  )
  \<close>
\<close>

definition indexFile :: string where
  "indexFile = ''.osync''"

definition ignoreFile :: string where
  "ignoreFile = indexFile @ ''ignore''"

text \<open>
  \<open>child r name\<close> is the node that the path \<open>filepath.Join(directory, name)\<close> leads to,
  when \<open>r\<close> is the tree at \<open>directory\<close> and \<open>name\<close> is a file name.
\<close>

definition child :: "node \<Rightarrow> string \<Rightarrow> node" where
  "child r name =
     (case r of
        Directory entries \<Rightarrow> (case map_of entries name of None \<Rightarrow> NoStat ENOENT | Some n \<Rightarrow> n)
      | Unlistable e \<Rightarrow> NoStat e
      | NoStat e \<Rightarrow> NoStat e
      | _ \<Rightarrow> NoStat ENOTDIR)"

text \<open>The error of \<open>os.Stat\<close> (\<open>None\<close> is nil), and \<open>os.IsNotExist\<close> of it.\<close>

definition os_Stat :: "node \<Rightarrow> error option" where
  "os_Stat n = (case n of NoStat e \<Rightarrow> Some e | _ \<Rightarrow> None)"

definition os_IsNotExist :: "error option \<Rightarrow> bool" where
  "os_IsNotExist err \<longleftrightarrow> err = Some ENOENT"

text \<open>
  \<open>os.Open\<close> followed by reading the handle to its end: the open fails, or a read
  fails, or the reads deliver the bytes of the file. Go opens a directory without error;
  reading it fails with \<open>EISDIR\<close>.
\<close>

datatype opened = OpenFails error | ReadFails error | Reads string

fun os_Open :: "node \<Rightarrow> opened" where
  "os_Open (Regular bytes) = Reads bytes"
| "os_Open (NoOpen e) = OpenFails e"
| "os_Open (NoRead e) = ReadFails e"
| "os_Open (Directory entries) = ReadFails EISDIR"
| "os_Open (Unlistable e) = OpenFails e"
| "os_Open Special = OpenFails ENXIO"
| "os_Open (NoStat e) = OpenFails e"

section \<open>Reading lines\<close>

text \<open>
  \<open>bufio.Scanner\<close> with its default split function \<open>ScanLines\<close>: the input is cut after
  each newline; the bytes after the last newline are a last line when there are any; one
  trailing carriage return is dropped from each line (\<open>dropCR\<close>). A line that does not
  fit the buffer of \<open>MaxScanTokenSize\<close> bytes stops the scan with \<open>ErrTooLong\<close>.
\<close>

definition MaxScanTokenSize :: nat where
  "MaxScanTokenSize = 64 * 1024"

definition newline :: char where
  "newline = CHR 0x0A"

definition dropCR :: "string \<Rightarrow> string" where
  "dropCR data = (if data \<noteq> [] \<and> last data = CHR 0x0D then butlast data else data)"

fun scan :: "string \<Rightarrow> string \<Rightarrow> string list" where
  "scan cur [] = (if cur = [] then [] else [cur])"
| "scan cur (c # cs) = (if c = newline then cur # scan [] cs else scan (cur @ [c]) cs)"

definition ScanLines :: "string \<Rightarrow> error + string list" where
  "ScanLines data =
     (let tokens = scan [] data
      in if list_ex (\<lambda>token. MaxScanTokenSize \<le> length token) tokens
         then Inl ErrTooLong
         else Inr (map dropCR tokens))"

text \<open>
  \<^verbatim>\<open>
  func readLines(file string) ([]string, error) {
      var lines []string
      f, err := os.Open(file)
      if err != nil {
          return nil, err
      }
      defer f.Close()
      sc := bufio.NewScanner(f)
      for sc.Scan() {
          lines = append(lines, sc.Text())
      }
      if err := sc.Err(); err != nil {
          return nil, err
      }
      return lines, err
  }
  \<close>
  The argument is the node the path leads to.
\<close>

definition readLines :: "node \<Rightarrow> error + string list" where
  "readLines file =
     (case os_Open file of
        OpenFails err \<Rightarrow> Inl err
      | ReadFails err \<Rightarrow> Inl err
      | Reads bytes \<Rightarrow> ScanLines bytes)"

section \<open>Load\<close>

text \<open>
  \<open>strings.Split(s, sep)\<close> for a separator of one byte: the pieces of \<open>s\<close> between the
  occurrences of the separator, \<open>n + 1\<close> pieces for \<open>n\<close> occurrences.
\<close>

fun Split :: "string \<Rightarrow> char \<Rightarrow> string list" where
  "Split [] sep = [[]]"
| "Split (c # cs) sep =
     (if c = sep then [] # Split cs sep
      else (case Split cs sep of [] \<Rightarrow> [[c]] | part # parts \<Rightarrow> (c # part) # parts))"

text \<open>
  \<^verbatim>\<open>
  func Load(directory string) (Index, error) {
      indexPath := filepath.Join(directory, indexFile)
      if _, err := os.Stat(indexPath); os.IsNotExist(err) {
          // return blank index
          return Index{directory: directory, files: map[string]string{}}, nil
      }
      index := Index{directory: directory, files: map[string]string{}}
      // read the index file line by line
      lines, err := readLines(indexPath)
      if err != nil {
          return Index{}, err
      }
      for _, line := range lines {
          parts := strings.Split(line, ":")
          index.files[parts[0]] = parts[1]
      }
      return index, nil
  }
  \<close>
  \<open>parts[1]\<close> is an index expression on a slice: out of range it panics.
\<close>

fun load_loop :: "string list \<Rightarrow> Index \<Rightarrow> Index result" where
  "load_loop [] index = Ok index"
| "load_loop (line # rest) index =
     (let parts = Split line (CHR '':'')
      in if length parts \<le> 1 then Panic (IndexOutOfRange 1 (length parts))
         else load_loop rest (index\<lparr>files := (files index)(parts ! 0 \<mapsto> parts ! 1)\<rparr>))"

definition Load :: "string \<Rightarrow> fs \<Rightarrow> Index result" where
  "Load dir w =
     (let indexPath = child (root w) indexFile
      in if os_IsNotExist (os_Stat indexPath)
         then Ok \<lparr>directory = dir, files = Map.empty\<rparr>
         else (case readLines indexPath of
                 Inl err \<Rightarrow> Error err
               | Inr lines \<Rightarrow> load_loop lines \<lparr>directory = dir, files = Map.empty\<rparr>))"

text \<open>
  The reading of the specification: a line is split on its first \<open>:\<close> into path and
  fingerprint, and the pairs are inserted into the entries in the order of the lines.
\<close>

definition spec_split_first :: "string \<Rightarrow> string \<times> string" where
  "spec_split_first line =
     (takeWhile (\<lambda>c. c \<noteq> CHR '':'') line, tl (dropWhile (\<lambda>c. c \<noteq> CHR '':'') line))"

definition spec_insert_all :: "(string \<times> string) list \<Rightarrow> (string \<rightharpoonup> string)" where
  "spec_insert_all pairs = foldl (\<lambda>m (path, fingerprint). m(path \<mapsto> fingerprint)) Map.empty pairs"

section \<open>Save\<close>

text \<open>
  \<open>os.Create\<close> of the path \<open>filepath.Join(directory, name)\<close>: the file is created empty,
  or truncated when it is there already. The result is the tree with the empty file, or
  the error.
\<close>

definition os_Create :: "node \<Rightarrow> string \<Rightarrow> error + node" where
  "os_Create r name =
     (case r of
        Directory entries \<Rightarrow>
          (case map_of entries name of
             None \<Rightarrow> Inr (Directory (AList.update name (Regular []) entries))
           | Some (Regular bytes) \<Rightarrow> Inr (Directory (AList.update name (Regular []) entries))
           | Some (NoOpen e) \<Rightarrow> Inl e
           | Some (NoRead e) \<Rightarrow> Inl e
           | Some (Directory sub) \<Rightarrow> Inl EISDIR
           | Some (Unlistable e) \<Rightarrow> Inl EISDIR
           | Some Special \<Rightarrow> Inl ENXIO
           | Some (NoStat e) \<Rightarrow> Inl e)
      | Unlistable e \<Rightarrow> Inl e
      | NoStat e \<Rightarrow> Inl e
      | _ \<Rightarrow> Inl ENOTDIR)"

text \<open>The tree once the open file \<open>name\<close> holds \<open>bytes\<close>.\<close>

definition store :: "node \<Rightarrow> string \<Rightarrow> string \<Rightarrow> node" where
  "store r name bytes =
     (case r of
        Directory entries \<Rightarrow> Directory (AList.update name (Regular bytes) entries)
      | _ \<Rightarrow> r)"

text \<open>
  \<open>bufio.Writer\<close> over the created file. \<open>out\<close> is what the file holds, \<open>space\<close> the
  room left on the device, \<open>buf\<close> the buffered bytes \<open>b.buf[0:b.n]\<close> and \<open>werr\<close> the
  sticky error \<open>b.err\<close>. A write to the file takes all the bytes, or as many as there is
  room for and fails with \<open>ENOSPC\<close>; it returns the number of bytes taken.
\<close>

record writer =
  out :: string
  space :: "nat option"
  buf :: string
  werr :: "error option"

definition defaultBufSize :: nat where
  "defaultBufSize = 4096"

definition Available :: "writer \<Rightarrow> nat" where
  "Available b = defaultBufSize - length (buf b)"

definition file_Write :: "writer \<Rightarrow> string \<Rightarrow> writer \<times> nat \<times> error option" where
  "file_Write b p =
     (case space b of
        None \<Rightarrow> (b\<lparr>out := out b @ p\<rparr>, length p, None)
      | Some r \<Rightarrow>
          if length p \<le> r
          then (b\<lparr>out := out b @ p, space := Some (r - length p)\<rparr>, length p, None)
          else (b\<lparr>out := out b @ take r p, space := Some 0\<rparr>, r, Some ENOSPC))"

text \<open>
  \<^verbatim>\<open>
  func (b *Writer) Flush() error {
      if b.err != nil { return b.err }
      if b.n == 0 { return nil }
      n, err := b.wr.Write(b.buf[0:b.n])
      if n < b.n && err == nil { err = io.ErrShortWrite }
      if err != nil {
          if n > 0 && n < b.n { copy(b.buf[0:b.n-n], b.buf[n:b.n]) }
          b.n -= n
          b.err = err
          return err
      }
      b.n = 0
      return nil
  }
  \<close>
  The error returned is the \<open>werr\<close> of the writer returned. A write to the file that
  takes fewer bytes than given returns an error, so \<open>io.ErrShortWrite\<close> does not arise.
\<close>

definition Flush :: "writer \<Rightarrow> writer" where
  "Flush b =
     (if werr b \<noteq> None then b
      else if buf b = [] then b
      else (case file_Write b (buf b) of
              (b', n, Some err) \<Rightarrow> b'\<lparr>buf := drop n (buf b), werr := Some err\<rparr>
            | (b', n, None) \<Rightarrow> b'\<lparr>buf := []\<rparr>))"

text \<open>
  \<^verbatim>\<open>
  func (b *Writer) WriteString(s string) (int, error) {
      nn := 0
      for len(s) > b.Available() && b.err == nil {
          n := copy(b.buf[b.n:], s)
          b.n += n
          nn += n
          s = s[n:]
          b.Flush()
      }
      if b.err != nil { return nn, b.err }
      n := copy(b.buf[b.n:], s)
      b.n += n
      nn += n
      return nn, nil
  }
  \<close>
  \<open>copy\<close> copies as many bytes as the shorter of its two arguments has. The count \<open>nn\<close>
  is left out: \<open>Save\<close> discards it.
\<close>

function WriteString_loop :: "writer \<Rightarrow> string \<Rightarrow> writer \<times> string" where
  "WriteString_loop b s =
     (if length s > Available b \<and> werr b = None
      then WriteString_loop
             (Flush (b\<lparr>buf := buf b @ take (min (Available b) (length s)) s\<rparr>))
             (drop (min (Available b) (length s)) s)
      else (b, s))"
  by pat_completeness auto
termination
proof (relation "measure (\<lambda>(b, s). if werr b \<noteq> None then 0
                                    else 2 * length s + (if buf b = [] then 0 else 1))")
  show "wf (measure (\<lambda>(b, s). if werr b \<noteq> None then 0
                                else 2 * length s + (if buf b = [] then 0 else 1)))"
    by simp
next
  fix b :: writer and s :: string
  assume "length s > Available b \<and> werr b = None"
  then show "((Flush (b\<lparr>buf := buf b @ take (min (Available b) (length s)) s\<rparr>),
               drop (min (Available b) (length s)) s), (b, s))
             \<in> measure (\<lambda>(b, s). if werr b \<noteq> None then 0
                                   else 2 * length s + (if buf b = [] then 0 else 1))"
    by (auto simp: Flush_def file_Write_def Available_def defaultBufSize_def min_def
        split: option.splits if_splits)
qed

definition WriteString :: "writer \<Rightarrow> string \<Rightarrow> writer \<times> error option" where
  "WriteString b s =
     (case WriteString_loop b s of
        (b', s') \<Rightarrow>
          (case werr b' of
             Some err \<Rightarrow> (b', Some err)
           | None \<Rightarrow> (b'\<lparr>buf := buf b' @ s'\<rparr>, None)))"

text \<open>
  \<^verbatim>\<open>
  func (i Index) Save() error {
      file, err := os.Create(filepath.Join(i.directory, indexFile))
      if err != nil {
          return err
      }
      defer file.Close()
      w := bufio.NewWriter(file)
      defer w.Flush()
      for file, sum := range i.files {
          if _, err := w.WriteString(fmt.Sprintf("%s:%s\n", file, sum)); err != nil {
              return err
          }
      }
      return nil
  }
  \<close>
  \<open>range_i\<close> is the sequence the loop over \<open>i.files\<close> produces. The deferred calls run
  at every return after the file is created, \<open>w.Flush()\<close> before \<open>file.Close()\<close>, and
  the error of the flush is dropped. The result is the error returned (\<open>None\<close> is nil)
  and the file system after the call. \<open>Sprintf_entry file sum\<close> is
  \<open>fmt.Sprintf("%s:%s\n", file, sum)\<close>.
\<close>

definition Sprintf_entry :: "string \<Rightarrow> string \<Rightarrow> string" where
  "Sprintf_entry file hsum = file @ '':'' @ hsum @ [newline]"

fun save_loop :: "(string \<times> string) list \<Rightarrow> writer \<Rightarrow> writer \<times> error option" where
  "save_loop [] w = (w, None)"
| "save_loop ((file, hsum) # rest) w =
     (case WriteString w (Sprintf_entry file hsum) of
        (w', Some err) \<Rightarrow> (w', Some err)
      | (w', None) \<Rightarrow> save_loop rest w')"

definition Save :: "Index \<Rightarrow> (string \<times> string) list \<Rightarrow> fs \<Rightarrow> error option \<times> fs" where
  "Save i range_i world =
     (case os_Create (root world) indexFile of
        Inl err \<Rightarrow> (Some err, world)
      | Inr created \<Rightarrow>
          (case save_loop range_i \<lparr>out = [], space = room world, buf = [], werr = None\<rparr> of
             (w, err) \<Rightarrow>
               (err, \<lparr>root = store created indexFile (out (Flush w)),
                      room = space (Flush w)\<rparr>)))"

text \<open>
  Two predicates for the statements about \<open>Save\<close>. \<open>fits sp n\<close>: a device with room
  \<open>sp\<close> accepts \<open>n\<close> more bytes. \<open>storable (file, sum)\<close>: the entry can be read back
  from its line, that is, neither the path nor the fingerprint holds a \<open>:\<close> or a
  newline, the fingerprint does not end in a carriage return, and the line is shorter
  than \<open>MaxScanTokenSize\<close>.
\<close>

definition fits :: "nat option \<Rightarrow> nat \<Rightarrow> bool" where
  "fits sp n = (case sp of None \<Rightarrow> True | Some r \<Rightarrow> n \<le> r)"

definition storable :: "string \<times> string \<Rightarrow> bool" where
  "storable entry =
     (case entry of
        (file, hsum) \<Rightarrow>
          CHR '':'' \<notin> set file \<and> newline \<notin> set file \<and>
          CHR '':'' \<notin> set hsum \<and> newline \<notin> set hsum \<and>
          (hsum = [] \<or> last hsum \<noteq> CHR 0x0D) \<and>
          length file + 1 + length hsum < MaxScanTokenSize)"

definition saved_bytes :: "(string \<times> string) list \<Rightarrow> string" where
  "saved_bytes range_i = concat (map (\<lambda>(file, hsum). Sprintf_entry file hsum) range_i)"

section \<open>Properties of Diff\<close>

lemma ranges_mem: "ranges m kvs \<Longrightarrow> (k, v) \<in> set kvs \<longleftrightarrow> m k = Some v"
  by (auto simp: ranges_def)

lemma ranges_keys: "ranges m kvs \<Longrightarrow> set (map fst kvs) = dom m"
  by (force simp: ranges_def dom_map_of_conv_image_fst)

lemma changed_loop_eq:
  "changed_loop kvs st =
     st\<lparr>changedFiles := changedFiles st @
          map fst (filter (\<lambda>(file, hsum). go_index (files (d_i st)) file \<noteq> hsum) kvs)\<rparr>"
  by (induction kvs st rule: changed_loop.induct) auto

lemma deleted_loop_eq:
  "deleted_loop kvs st =
     st\<lparr>deletedFiles := deletedFiles st @
          map fst (filter (\<lambda>(file, hsum). files (d_other st) file = None) kvs)\<rparr>"
  by (induction kvs st rule: deleted_loop.induct) (auto split: option.splits)

lemma Diff_run_eq:
  "Diff_run i other range_other range_i =
     \<lparr>d_i = i, d_other = other,
      changedFiles = map fst (filter (\<lambda>(file, hsum). go_index (files i) file \<noteq> hsum) range_other),
      deletedFiles = map fst (filter (\<lambda>(file, hsum). files other file = None) range_i)\<rparr>"
  by (simp add: Diff_run_def changed_loop_eq deleted_loop_eq)

lemma Diff_eq:
  "Diff i other range_other range_i =
     (map fst (filter (\<lambda>(file, hsum). go_index (files i) file \<noteq> hsum) range_other),
      map fst (filter (\<lambda>(file, hsum). files other file = None) range_i))"
  by (simp add: Diff_def Diff_run_eq)

lemma distinct_map_fst_filter: "distinct (map fst kvs) \<Longrightarrow> distinct (map fst (filter P kvs))"
  by (induction kvs) auto

lemma changed_set:
  assumes "ranges (files other) range_other"
  shows "set (fst (Diff i other range_other range_i)) =
           {p. \<exists>hsum. files other p = Some hsum \<and> go_index (files i) p \<noteq> hsum}"
  using ranges_mem [OF assms] by (force simp: Diff_eq)

lemma deleted_set:
  assumes "ranges (files i) range_i"
  shows "set (snd (Diff i other range_other range_i)) =
           {p. p \<in> dom (files i) \<and> p \<notin> dom (files other)}"
  using ranges_mem [OF assms] by (force simp: Diff_eq)

lemma changed_distinct:
  "ranges (files other) range_other \<Longrightarrow> distinct (fst (Diff i other range_other range_i))"
  by (simp add: Diff_eq ranges_def distinct_map_fst_filter)

lemma deleted_distinct:
  "ranges (files i) range_i \<Longrightarrow> distinct (snd (Diff i other range_other range_i))"
  by (simp add: Diff_eq ranges_def distinct_map_fst_filter)

lemma ranges_map_of:
  "distinct (map fst kvs) \<Longrightarrow> distinct (map fst kvs') \<Longrightarrow> set kvs' = set kvs
     \<Longrightarrow> ranges (map_of kvs) kvs'"
  by (simp add: ranges_def map_of_inject_set)

text \<open>
  Claim C1 (evaluation of the code where it departs from the claim). The claim puts every
  path of \<open>current\<close> that \<open>previous\<close> does not hold into \<open>changedOrNew\<close>, which is also
  what the comment in the loop says. The test of the loop is \<open>i.files[file] != sum\<close>, and
  a missing key reads as the empty string: with \<open>previous\<close> blank and \<open>current\<close> holding
  the one path \<open>p\<close> with the empty fingerprint, the loop ranges over the single entry of
  \<open>current\<close> and appends nothing, so the new path \<open>p\<close> is in neither list.
\<close>

theorem Diff_misses_new_path_with_empty_fingerprint:
  "ranges (files \<lparr>directory = ''new'', files = map_of [(''p'', '''')]\<rparr>) [(''p'', '''')]
   \<and> ranges (files \<lparr>directory = ''old'', files = Map.empty\<rparr>) []
   \<and> files \<lparr>directory = ''old'', files = Map.empty\<rparr> ''p'' = None
   \<and> Diff \<lparr>directory = ''old'', files = Map.empty\<rparr>
           \<lparr>directory = ''new'', files = map_of [(''p'', '''')]\<rparr>
           [(''p'', '''')] [] = ([], [])"
  by (simp add: ranges_def Diff_eq go_index_def)

text \<open>
  Claim C8. Comparing an index with itself gives two empty lists, whatever order the two
  loops range over its map in.
\<close>

theorem Diff_self_empty:
  assumes "ranges (files X) range_other" and "ranges (files X) range_i"
  shows "Diff X X range_other range_i = ([], [])"
proof -
  have "filter (\<lambda>(file, hsum). go_index (files X) file \<noteq> hsum) range_other = []"
    using ranges_mem [OF assms(1)] by (auto simp: filter_empty_conv go_index_def)
  moreover have "filter (\<lambda>(file, hsum). files X file = None) range_i = []"
    using ranges_mem [OF assms(2)] by (auto simp: filter_empty_conv)
  ultimately show ?thesis
    by (simp add: Diff_eq)
qed

theorem Diff_self_empty_witness:
  "ranges (files \<lparr>directory = ''d'', files = map_of [(''a'', ''a''), (''b'', ''b'')]\<rparr>)
          [(''a'', ''a''), (''b'', ''b'')]
   \<and> ranges (files \<lparr>directory = ''d'', files = map_of [(''a'', ''a''), (''b'', ''b'')]\<rparr>)
          [(''b'', ''b''), (''a'', ''a'')]
   \<and> Diff \<lparr>directory = ''d'', files = map_of [(''a'', ''a''), (''b'', ''b'')]\<rparr>
           \<lparr>directory = ''d'', files = map_of [(''a'', ''a''), (''b'', ''b'')]\<rparr>
           [(''a'', ''a''), (''b'', ''b'')] [(''b'', ''b''), (''a'', ''a'')] = ([], [])"
proof -
  let ?X = "\<lparr>directory = ''d'', files = map_of [(''a'', ''a''), (''b'', ''b'')]\<rparr>"
  have r1: "ranges (files ?X) [(''a'', ''a''), (''b'', ''b'')]"
    by (simp add: ranges_def)
  have r2: "ranges (files ?X) [(''b'', ''b''), (''a'', ''a'')]"
    using ranges_map_of [of "[(''a'', ''a''), (''b'', ''b'')]" "[(''b'', ''b''), (''a'', ''a'')]"]
    by auto
  from Diff_self_empty [OF r1 r2] r1 r2 show ?thesis
    by blast
qed

text \<open>
  Claim C9. A key that \<open>previous\<close> lacks reads as the empty string, so a path that
  \<open>current\<close> holds with the empty fingerprint and \<open>previous\<close> does not hold is compared
  equal and is not appended to the changed files, although it is new.
\<close>

theorem Diff_missing_reads_as_empty:
  assumes "ranges (files current) range_other"
    and "files current p = Some []"
    and "files previous p = None"
  shows "go_index (files previous) p = []
         \<and> p \<notin> set (fst (Diff previous current range_other range_i))"
proof -
  have g: "go_index (files previous) p = []"
    using assms(3) by (simp add: go_index_def)
  have "\<not> (\<exists>hsum. files current p = Some hsum \<and> go_index (files previous) p \<noteq> hsum)"
    using assms(2) g by simp
  then have "p \<notin> set (fst (Diff previous current range_other range_i))"
    unfolding changed_set [OF assms(1)] by blast
  with g show ?thesis by simp
qed

theorem Diff_missing_reads_as_empty_witness:
  "ranges (files \<lparr>directory = ''d'', files = map_of [(''n'', ''''), (''a'', ''1'')]\<rparr>)
          [(''a'', ''1''), (''n'', '''')]
   \<and> files \<lparr>directory = ''d'', files = map_of [(''n'', ''''), (''a'', ''1'')]\<rparr> ''n'' = Some []
   \<and> files \<lparr>directory = ''d'', files = map_of [(''a'', ''a'')]\<rparr> ''n'' = None
   \<and> ''n'' \<notin> set (fst (Diff \<lparr>directory = ''d'', files = map_of [(''a'', ''a'')]\<rparr>
                              \<lparr>directory = ''d'', files = map_of [(''n'', ''''), (''a'', ''1'')]\<rparr>
                              [(''a'', ''1''), (''n'', '''')] [(''a'', ''a'')]))
   \<and> ''a'' \<in> set (fst (Diff \<lparr>directory = ''d'', files = map_of [(''a'', ''a'')]\<rparr>
                              \<lparr>directory = ''d'', files = map_of [(''n'', ''''), (''a'', ''1'')]\<rparr>
                              [(''a'', ''1''), (''n'', '''')] [(''a'', ''a'')]))"
proof -
  let ?cur = "\<lparr>directory = ''d'', files = map_of [(''n'', ''''), (''a'', ''1'')]\<rparr>"
  let ?prev = "\<lparr>directory = ''d'', files = map_of [(''a'', ''a'')]\<rparr>"
  have r: "ranges (files ?cur) [(''a'', ''1''), (''n'', '''')]"
    using ranges_map_of [of "[(''n'', ''''), (''a'', ''1'')]" "[(''a'', ''1''), (''n'', '''')]"]
    by auto
  have c: "files ?cur ''n'' = Some []" by simp
  have p: "files ?prev ''n'' = None" by simp
  have a: "''a'' \<in> set (fst (Diff ?prev ?cur [(''a'', ''1''), (''n'', '''')] [(''a'', ''a'')]))"
    by (simp add: Diff_eq go_index_def)
  from Diff_missing_reads_as_empty [OF r c p, of "[(''a'', ''a'')]"] r c p a show ?thesis
    by blast
qed

text \<open>
  Claim C10. The two lists of \<open>Diff\<close>, as sets, are functions of the two \<open>files\<close> maps
  alone: two calls on indexes with the same maps give the same sets, whatever the
  \<open>directory\<close> fields are and whatever order each loop ranges in. The call leaves both
  indexes as they were: the state at the return holds the indexes it started with.
\<close>

theorem Diff_depends_on_files_only:
  assumes "files i = files i'" and "files other = files other'"
    and "ranges (files other) range_other" and "ranges (files i) range_i"
    and "ranges (files other') range_other'" and "ranges (files i') range_i'"
  shows "set (fst (Diff i other range_other range_i))
           = set (fst (Diff i' other' range_other' range_i'))
         \<and> set (snd (Diff i other range_other range_i))
           = set (snd (Diff i' other' range_other' range_i'))
         \<and> d_i (Diff_run i other range_other range_i) = i
         \<and> d_other (Diff_run i other range_other range_i) = other"
proof -
  have "set (fst (Diff i other range_other range_i))
          = set (fst (Diff i' other' range_other' range_i'))"
    unfolding changed_set [OF assms(3)] changed_set [OF assms(5)]
    by (simp add: assms(1,2))
  moreover have "set (snd (Diff i other range_other range_i))
          = set (snd (Diff i' other' range_other' range_i'))"
    unfolding deleted_set [OF assms(4)] deleted_set [OF assms(6)]
    by (simp add: assms(1,2))
  ultimately show ?thesis
    by (simp add: Diff_run_eq)
qed

theorem Diff_depends_on_files_only_witness:
  "set (fst (Diff \<lparr>directory = ''/srv/x'', files = map_of [(''a'', ''a''), (''b'', ''b'')]\<rparr>
                  \<lparr>directory = ''/srv/x'', files = map_of [(''a'', ''1''), (''c'', ''c'')]\<rparr>
                  [(''a'', ''1''), (''c'', ''c'')] [(''a'', ''a''), (''b'', ''b'')]))
     = set (fst (Diff \<lparr>directory = ''/tmp/y'', files = map_of [(''b'', ''b''), (''a'', ''a'')]\<rparr>
                      \<lparr>directory = ''/tmp/z'', files = map_of [(''c'', ''c''), (''a'', ''1'')]\<rparr>
                      [(''c'', ''c''), (''a'', ''1'')] [(''b'', ''b''), (''a'', ''a'')]))
   \<and> set (snd (Diff \<lparr>directory = ''/srv/x'', files = map_of [(''a'', ''a''), (''b'', ''b'')]\<rparr>
                    \<lparr>directory = ''/srv/x'', files = map_of [(''a'', ''1''), (''c'', ''c'')]\<rparr>
                    [(''a'', ''1''), (''c'', ''c'')] [(''a'', ''a''), (''b'', ''b'')]))
     = set (snd (Diff \<lparr>directory = ''/tmp/y'', files = map_of [(''b'', ''b''), (''a'', ''a'')]\<rparr>
                      \<lparr>directory = ''/tmp/z'', files = map_of [(''c'', ''c''), (''a'', ''1'')]\<rparr>
                      [(''c'', ''c''), (''a'', ''1'')] [(''b'', ''b''), (''a'', ''a'')]))
   \<and> fst (Diff \<lparr>directory = ''/srv/x'', files = map_of [(''a'', ''a''), (''b'', ''b'')]\<rparr>
               \<lparr>directory = ''/srv/x'', files = map_of [(''a'', ''1''), (''c'', ''c'')]\<rparr>
               [(''a'', ''1''), (''c'', ''c'')] [(''a'', ''a''), (''b'', ''b'')]) = [''a'', ''c'']
   \<and> fst (Diff \<lparr>directory = ''/tmp/y'', files = map_of [(''b'', ''b''), (''a'', ''a'')]\<rparr>
               \<lparr>directory = ''/tmp/z'', files = map_of [(''c'', ''c''), (''a'', ''1'')]\<rparr>
               [(''c'', ''c''), (''a'', ''1'')] [(''b'', ''b''), (''a'', ''a'')]) = [''c'', ''a'']"
proof -
  let ?i = "\<lparr>directory = ''/srv/x'', files = map_of [(''a'', ''a''), (''b'', ''b'')]\<rparr>"
  let ?o = "\<lparr>directory = ''/srv/x'', files = map_of [(''a'', ''1''), (''c'', ''c'')]\<rparr>"
  let ?i' = "\<lparr>directory = ''/tmp/y'', files = map_of [(''b'', ''b''), (''a'', ''a'')]\<rparr>"
  let ?o' = "\<lparr>directory = ''/tmp/z'', files = map_of [(''c'', ''c''), (''a'', ''1'')]\<rparr>"
  have fi: "files ?i = files ?i'"
    using map_of_inject_set [of "[(''a'', ''a''), (''b'', ''b'')]" "[(''b'', ''b''), (''a'', ''a'')]"]
    by auto
  have fo: "files ?o = files ?o'"
    using map_of_inject_set [of "[(''a'', ''1''), (''c'', ''c'')]" "[(''c'', ''c''), (''a'', ''1'')]"]
    by auto
  have ro: "ranges (files ?o) [(''a'', ''1''), (''c'', ''c'')]"
    by (simp add: ranges_def)
  have ri: "ranges (files ?i) [(''a'', ''a''), (''b'', ''b'')]"
    by (simp add: ranges_def)
  have ro': "ranges (files ?o') [(''c'', ''c''), (''a'', ''1'')]"
    by (simp add: ranges_def)
  have ri': "ranges (files ?i') [(''b'', ''b''), (''a'', ''a'')]"
    by (simp add: ranges_def)
  have l: "fst (Diff ?i ?o [(''a'', ''1''), (''c'', ''c'')] [(''a'', ''a''), (''b'', ''b'')])
             = [''a'', ''c'']"
    by (simp add: Diff_eq go_index_def)
  have l': "fst (Diff ?i' ?o' [(''c'', ''c''), (''a'', ''1'')] [(''b'', ''b''), (''a'', ''a'')])
             = [''c'', ''a'']"
    by (simp add: Diff_eq go_index_def)
  from Diff_depends_on_files_only [OF fi fo ro ri ro' ri'] l l' show ?thesis
    by blast
qed

section \<open>Properties of Load\<close>

lemma Split_not_Nil: "Split s sep \<noteq> []"
  by (induction s) (auto split: list.splits)

lemma Split_unfold:
  "Split s sep =
     takeWhile (\<lambda>c. c \<noteq> sep) s #
       (if sep \<in> set s then Split (tl (dropWhile (\<lambda>c. c \<noteq> sep) s)) sep else [])"
proof (induction s)
  case Nil
  show ?case by simp
next
  case (Cons c cs)
  show ?case
  proof (cases "c = sep")
    case True
    then show ?thesis by simp
  next
    case False
    then show ?thesis
      by (simp add: Cons.IH Split_not_Nil split: list.splits)
  qed
qed

lemma length_Split_le_1: "length (Split s sep) \<le> Suc 0 \<longleftrightarrow> sep \<notin> set s"
proof -
  have "Split (tl (dropWhile (\<lambda>c. c \<noteq> sep) s)) sep \<noteq> []"
    by (rule Split_not_Nil)
  then show ?thesis
    by (subst Split_unfold) (auto simp: Suc_le_eq)
qed

lemma length_Split_no_sep: "sep \<notin> set s \<Longrightarrow> length (Split s sep) = Suc 0"
  by (subst Split_unfold) simp

lemma Split_nth_0: "Split s sep ! 0 = takeWhile (\<lambda>c. c \<noteq> sep) s"
  by (subst Split_unfold) simp

lemma Split_nth_1:
  assumes "sep \<in> set s"
  shows "Split s sep ! 1
           = takeWhile (\<lambda>c. c \<noteq> sep) (tl (dropWhile (\<lambda>c. c \<noteq> sep) s))"
proof -
  have "Split s sep ! 1 = Split (tl (dropWhile (\<lambda>c. c \<noteq> sep) s)) sep ! 0"
    using assms by (subst Split_unfold) simp
  then show ?thesis
    by (simp only: Split_nth_0)
qed

lemma load_loop_panics:
  "\<exists>line\<in>set lines. CHR '':'' \<notin> set line \<Longrightarrow> load_loop lines index = Panic (IndexOutOfRange 1 1)"
proof (induction lines arbitrary: index)
  case Nil
  then show ?case by simp
next
  case (Cons line rest)
  show ?case
  proof (cases "CHR '':'' \<in> set line")
    case True
    with Cons.prems have "\<exists>line\<in>set rest. CHR '':'' \<notin> set line" by auto
    from Cons.IH [OF this] True show ?thesis
      by (simp add: Let_def length_Split_le_1)
  next
    case False
    then show ?thesis
      by (simp add: Let_def length_Split_le_1 length_Split_no_sep)
  qed
qed

lemma load_loop_inserts:
  "\<forall>line\<in>set lines. CHR '':'' \<in> set line \<Longrightarrow>
   load_loop lines index =
     Ok (index\<lparr>files :=
           foldl (\<lambda>m (path, fingerprint). m(path \<mapsto> fingerprint)) (files index)
             (map (\<lambda>line. (fst (spec_split_first line),
                            takeWhile (\<lambda>c. c \<noteq> CHR '':'') (snd (spec_split_first line)))) lines)\<rparr>)"
proof (induction lines arbitrary: index)
  case Nil
  show ?case by simp
next
  case (Cons line rest)
  then have sep: "CHR '':'' \<in> set line" and rest: "\<forall>line\<in>set rest. CHR '':'' \<in> set line"
    by simp_all
  show ?case
    using sep by (simp add: Let_def length_Split_le_1 Cons.IH [OF rest] Split_nth_0
        Split_nth_1 [unfolded One_nat_def] spec_split_first_def)
qed

lemma Load_present:
  "child (root w) indexFile = Regular bytes \<Longrightarrow> ScanLines bytes = Inr lines \<Longrightarrow>
   Load dir w = load_loop lines \<lparr>directory = dir, files = Map.empty\<rparr>"
  by (simp add: Load_def os_Stat_def os_IsNotExist_def readLines_def)

lemma one_colon_fingerprint:
  assumes "count_list line (CHR '':'') = 1"
  shows "takeWhile (\<lambda>c. c \<noteq> CHR '':'') (snd (spec_split_first line)) = snd (spec_split_first line)"
proof -
  have "count_list line (CHR '':'')
          = count_list (takeWhile (\<lambda>c. c \<noteq> CHR '':'') line) (CHR '':'')
            + count_list (dropWhile (\<lambda>c. c \<noteq> CHR '':'') line) (CHR '':'')"
    by (metis count_list_append takeWhile_dropWhile_id)
  moreover have "count_list (takeWhile (\<lambda>c. c \<noteq> CHR '':'') line) (CHR '':'') = 0"
    by (auto simp: count_list_0_iff dest: set_takeWhileD)
  ultimately have d: "count_list (dropWhile (\<lambda>c. c \<noteq> CHR '':'') line) (CHR '':'') = 1"
    using assms by simp
  then obtain rest where r: "dropWhile (\<lambda>c. c \<noteq> CHR '':'') line = CHR '':'' # rest"
    by (cases "dropWhile (\<lambda>c. c \<noteq> CHR '':'') line")
      (auto simp: dropWhile_eq_Cons_conv)
  with d have "count_list rest (CHR '':'') = 0" by simp
  then have "CHR '':'' \<notin> set rest"
    by (simp add: count_list_0_iff)
  then show ?thesis
    by (auto simp: spec_split_first_def r takeWhile_eq_all_conv)
qed

text \<open>
  Claim C5 (the code departs from the claim). A line with no \<open>:\<close> splits into one
  piece, and \<open>parts[1]\<close> is then out of range: when the index file is there and can be
  read, and one of its lines has no \<open>:\<close>, \<open>Load\<close> does not return an error but
  panics with "index out of range [1] with length 1".
\<close>

theorem Load_missing_separator_panics:
  assumes "child (root w) indexFile = Regular bytes"
    and "ScanLines bytes = Inr lines"
    and "\<exists>line\<in>set lines. CHR '':'' \<notin> set line"
  shows "Load dir w = Panic (IndexOutOfRange 1 1)"
proof -
  have "Load dir w = load_loop lines \<lparr>directory = dir, files = Map.empty\<rparr>"
    using assms(1,2) by (rule Load_present)
  also have "\<dots> = Panic (IndexOutOfRange 1 1)"
    using assms(3) by (rule load_loop_panics)
  finally show ?thesis .
qed

theorem Load_missing_separator_panics_witness:
  "ScanLines (''test:123445'' @ [newline] @ ''lol'') = Inr [''test:123445'', ''lol'']
   \<and> Load ''/srv/data''
        \<lparr>root = Directory [(''.osync'', Regular (''test:123445'' @ [newline] @ ''lol''))],
         room = None\<rparr>
       = Panic (IndexOutOfRange 1 1)"
proof -
  let ?bytes = "''test:123445'' @ [newline] @ ''lol''"
  let ?w = "\<lparr>root = Directory [(''.osync'', Regular ?bytes)], room = None\<rparr>"
  have c: "child (root ?w) indexFile = Regular ?bytes"
    by (simp add: child_def indexFile_def)
  have s: "ScanLines ?bytes = Inr [''test:123445'', ''lol'']"
    by (simp add: ScanLines_def newline_def dropCR_def MaxScanTokenSize_def)
  have m: "\<exists>line\<in>set [''test:123445'', ''lol'']. CHR '':'' \<notin> set line"
    by simp
  from Load_missing_separator_panics [OF c s m, of "''/srv/data''"] s show ?thesis
    by simp
qed

text \<open>
  Claim C7 as stated fails: \<open>strings.Split\<close> cuts a line at every \<open>:\<close> and the loop keeps
  the first two pieces, so on the line \<open>a:b:c\<close> the fingerprint stored for \<open>a\<close> is \<open>b\<close>,
  where the split on the first \<open>:\<close> gives \<open>b:c\<close>.
\<close>

theorem Load_split_first_counterexample:
  "ScanLines ''a:b:c'' = Inr [''a:b:c'']
   \<and> Load ''d'' \<lparr>root = Directory [(''.osync'', Regular ''a:b:c'')], room = None\<rparr>
       = Ok \<lparr>directory = ''d'', files = [''a'' \<mapsto> ''b'']\<rparr>
   \<and> Load ''d'' \<lparr>root = Directory [(''.osync'', Regular ''a:b:c'')], room = None\<rparr>
       \<noteq> Ok \<lparr>directory = ''d'', files = spec_insert_all (map spec_split_first [''a:b:c''])\<rparr>"
proof -
  have s: "ScanLines ''a:b:c'' = Inr [''a:b:c'']"
    by (simp add: ScanLines_def newline_def dropCR_def MaxScanTokenSize_def)
  have l: "Load ''d'' \<lparr>root = Directory [(''.osync'', Regular ''a:b:c'')], room = None\<rparr>
             = Ok \<lparr>directory = ''d'', files = [''a'' \<mapsto> ''b'']\<rparr>"
    by (simp add: Load_def child_def indexFile_def os_Stat_def os_IsNotExist_def readLines_def s)
  have sp: "spec_insert_all (map spec_split_first [''a:b:c'']) ''a'' = Some ''b:c''"
    by (simp add: spec_insert_all_def spec_split_first_def)
  have ne: "[''a'' \<mapsto> ''b''] \<noteq> spec_insert_all (map spec_split_first [''a:b:c''])"
  proof
    assume "[''a'' \<mapsto> ''b''] = spec_insert_all (map spec_split_first [''a:b:c''])"
    then have "[''a'' \<mapsto> ''b''] ''a'' = spec_insert_all (map spec_split_first [''a:b:c'']) ''a''"
      by (rule arg_cong [where f = "\<lambda>m. m ''a''"])
    with sp show False
      by simp
  qed
  show ?thesis
    unfolding l using s ne by simp
qed

text \<open>
  Claim C7, amended. When the index file is there and can be read, and every line holds
  a \<open>:\<close>, \<open>Load\<close> returns the index whose entries are inserted line by line, the path
  being the text before the first \<open>:\<close> of the line and the fingerprint the text between
  the first \<open>:\<close> and the next one (or the end of the line). When every line holds exactly
  one \<open>:\<close>, that is the split of each line on its first \<open>:\<close>. On the persisted content
  \<open>test:123445\nlol:1253425\<close> the entries are \<open>test \<mapsto> 123445\<close> and \<open>lol \<mapsto> 1253425\<close>.
\<close>

theorem Load_parses_index_file:
  assumes "child (root w) indexFile = Regular bytes"
    and "ScanLines bytes = Inr lines"
    and "\<forall>line\<in>set lines. CHR '':'' \<in> set line"
  shows "Load dir w =
           Ok \<lparr>directory = dir,
               files = spec_insert_all
                 (map (\<lambda>line. (fst (spec_split_first line),
                                takeWhile (\<lambda>c. c \<noteq> CHR '':'') (snd (spec_split_first line))))
                    lines)\<rparr>
         \<and> ((\<forall>line\<in>set lines. count_list line (CHR '':'') = 1) \<longrightarrow>
              Load dir w = Ok \<lparr>directory = dir, files = spec_insert_all (map spec_split_first lines)\<rparr>)
         \<and> Load dir
              \<lparr>root = Directory [(indexFile, Regular (''test:123445'' @ [newline] @ ''lol:1253425''))],
               room = None\<rparr>
            = Ok \<lparr>directory = dir, files = [''test'' \<mapsto> ''123445'', ''lol'' \<mapsto> ''1253425'']\<rparr>"
proof -
  let ?cut = "\<lambda>line. (fst (spec_split_first line),
                       takeWhile (\<lambda>c. c \<noteq> CHR '':'') (snd (spec_split_first line)))"
  have general: "Load dir w = Ok \<lparr>directory = dir, files = spec_insert_all (map ?cut lines)\<rparr>"
    using Load_present [OF assms(1,2)] load_loop_inserts [OF assms(3)]
    by (simp add: spec_insert_all_def)
  have one: "map ?cut lines = map spec_split_first lines"
    if "\<forall>line\<in>set lines. count_list line (CHR '':'') = 1"
    using that by (simp add: one_colon_fingerprint)
  have scenario: "Load dir
      \<lparr>root = Directory [(indexFile, Regular (''test:123445'' @ [newline] @ ''lol:1253425''))],
       room = None\<rparr>
    = Ok \<lparr>directory = dir, files = [''test'' \<mapsto> ''123445'', ''lol'' \<mapsto> ''1253425'']\<rparr>"
    by (simp add: Load_def child_def os_Stat_def os_IsNotExist_def readLines_def ScanLines_def
        newline_def dropCR_def MaxScanTokenSize_def Let_def)
  have exact: "Load dir w = Ok \<lparr>directory = dir, files = spec_insert_all (map spec_split_first lines)\<rparr>"
    if "\<forall>line\<in>set lines. count_list line (CHR '':'') = 1"
    unfolding one [OF that, symmetric] by (rule general)
  from general exact scenario show ?thesis
    by blast
qed

theorem Load_parses_index_file_witness:
  "ScanLines (''a:1'' @ [newline] @ ''b:2:x'' @ [newline] @ ''a:3'' @ [newline])
     = Inr [''a:1'', ''b:2:x'', ''a:3'']
   \<and> Load ''d''
        \<lparr>root = Directory [(''.osync'',
            Regular (''a:1'' @ [newline] @ ''b:2:x'' @ [newline] @ ''a:3'' @ [newline]))],
         room = None\<rparr>
       = Ok \<lparr>directory = ''d'', files = [''b'' \<mapsto> ''2'', ''a'' \<mapsto> ''3'']\<rparr>"
proof -
  let ?bytes = "''a:1'' @ [newline] @ ''b:2:x'' @ [newline] @ ''a:3'' @ [newline]"
  let ?w = "\<lparr>root = Directory [(''.osync'', Regular ?bytes)], room = None\<rparr>"
  have c: "child (root ?w) indexFile = Regular ?bytes"
    by (simp add: child_def indexFile_def)
  have s: "ScanLines ?bytes = Inr [''a:1'', ''b:2:x'', ''a:3'']"
    by (simp add: ScanLines_def newline_def dropCR_def MaxScanTokenSize_def)
  have m: "\<forall>line\<in>set [''a:1'', ''b:2:x'', ''a:3'']. CHR '':'' \<in> set line"
    by simp
  have e: "spec_insert_all
             (map (\<lambda>line. (fst (spec_split_first line),
                            takeWhile (\<lambda>c. c \<noteq> CHR '':'') (snd (spec_split_first line))))
                [''a:1'', ''b:2:x'', ''a:3''])
           = [''b'' \<mapsto> ''2'', ''a'' \<mapsto> ''3'']"
    by (rule ext) (simp add: spec_insert_all_def spec_split_first_def)
  from Load_parses_index_file [OF c s m, of "''d''"] s e show ?thesis
    by simp
qed

section \<open>Properties of Save\<close>

declare WriteString_loop.simps [simp del]

lemma fits_less: "fits sp n \<Longrightarrow> m \<le> n \<Longrightarrow> fits sp m"
  by (auto simp: fits_def split: option.splits)

lemma Flush_fits:
  assumes "werr b = None" and "fits (space b) (length (buf b) + k)"
  shows "werr (Flush b) = None \<and> out (Flush b) = out b @ buf b \<and> buf (Flush b) = []
         \<and> fits (space (Flush b)) k"
  using assms by (auto simp: Flush_def file_Write_def fits_def split: option.splits)

lemma WriteString_loop_fits:
  "werr b = None \<Longrightarrow> fits (space b) (length (buf b) + length s + k) \<Longrightarrow>
   werr (fst (WriteString_loop b s)) = None
   \<and> out (fst (WriteString_loop b s)) @ buf (fst (WriteString_loop b s)) @ snd (WriteString_loop b s)
       = out b @ buf b @ s
   \<and> length (snd (WriteString_loop b s)) \<le> Available (fst (WriteString_loop b s))
   \<and> fits (space (fst (WriteString_loop b s)))
        (length (buf (fst (WriteString_loop b s))) + length (snd (WriteString_loop b s)) + k)"
proof (induction b s rule: WriteString_loop.induct)
  case (1 b s)
  show ?case
  proof (cases "length s > Available b \<and> werr b = None")
    case False
    with "1.prems" show ?thesis
      by (simp add: WriteString_loop.simps [of b s])
  next
    case True
    let ?n = "min (Available b) (length s)"
    let ?b1 = "b\<lparr>buf := buf b @ take ?n s\<rparr>"
    have w1: "werr ?b1 = None"
      using "1.prems"(1) by simp
    have f1: "fits (space ?b1) (length (buf ?b1) + (length (drop ?n s) + k))"
      using "1.prems"(2) by (auto elim: fits_less)
    note fl = Flush_fits [OF w1 f1]
    have f2: "fits (space (Flush ?b1)) (length (buf (Flush ?b1)) + length (drop ?n s) + k)"
      using fl by simp
    from fl have w2: "werr (Flush ?b1) = None"
      by simp
    have step: "WriteString_loop b s = WriteString_loop (Flush ?b1) (drop ?n s)"
      using True by (simp add: WriteString_loop.simps [of b s])
    from "1.IH" [OF True w2 f2] fl show ?thesis
      unfolding step by simp
  qed
qed

lemma WriteString_fits:
  assumes "werr b = None" and "fits (space b) (length (buf b) + length s + k)"
  shows "snd (WriteString b s) = None
         \<and> werr (fst (WriteString b s)) = None
         \<and> out (fst (WriteString b s)) @ buf (fst (WriteString b s)) = out b @ buf b @ s
         \<and> fits (space (fst (WriteString b s))) (length (buf (fst (WriteString b s))) + k)"
  using WriteString_loop_fits [OF assms]
  by (cases "WriteString_loop b s") (simp add: WriteString_def)

lemma save_loop_fits:
  "werr b = None \<Longrightarrow> fits (space b) (length (buf b) + length (saved_bytes kvs) + k) \<Longrightarrow>
   snd (save_loop kvs b) = None
   \<and> werr (fst (save_loop kvs b)) = None
   \<and> out (fst (save_loop kvs b)) @ buf (fst (save_loop kvs b)) = out b @ buf b @ saved_bytes kvs
   \<and> fits (space (fst (save_loop kvs b))) (length (buf (fst (save_loop kvs b))) + k)"
proof (induction kvs arbitrary: b)
  case Nil
  then show ?case by (simp add: saved_bytes_def)
next
  case (Cons kv kvs)
  obtain name hsum where kv: "kv = (name, hsum)"
    by (cases kv)
  let ?s = "Sprintf_entry name hsum"
  have sb: "saved_bytes (kv # kvs) = ?s @ saved_bytes kvs"
    by (simp add: saved_bytes_def kv)
  have "fits (space b) (length (buf b) + length ?s + (length (saved_bytes kvs) + k))"
    using Cons.prems(2) by (simp add: sb add.assoc)
  note ws = WriteString_fits [OF Cons.prems(1) this]
  obtain b' where b': "WriteString b ?s = (b', None)"
    using ws by (cases "WriteString b ?s") simp
  from ws b' have "werr b' = None"
    and "fits (space b') (length (buf b') + length (saved_bytes kvs) + k)"
    and o: "out b' @ buf b' = out b @ buf b @ ?s"
    by (simp_all add: add.assoc)
  note ih = Cons.IH [OF this(1,2)]
  have "(out b' @ buf b') @ saved_bytes kvs = (out b @ buf b @ ?s) @ saved_bytes kvs"
    by (simp only: o)
  then have "out b' @ buf b' @ saved_bytes kvs = out b @ buf b @ saved_bytes (kv # kvs)"
    by (simp add: sb)
  with ih show ?case
    by (simp add: kv b')
qed

lemma os_Create_Directory:
  "os_Create r name = Inr created \<Longrightarrow> \<exists>entries. created = Directory entries"
  by (auto simp: os_Create_def split: node.splits option.splits)

lemma child_store:
  "child (store (Directory entries) name bytes) name = Regular bytes"
  by (simp add: child_def store_def update_conv')

lemma Save_fits:
  assumes "os_Create (root world) indexFile = Inr created"
    and "fits (room world) (length (saved_bytes range_i))"
  shows "fst (Save i range_i world) = None
         \<and> child (root (snd (Save i range_i world))) indexFile = Regular (saved_bytes range_i)"
proof -
  let ?b0 = "\<lparr>out = [], space = room world, buf = [], werr = None\<rparr>"
  have "werr ?b0 = None" by simp
  moreover have "fits (space ?b0) (length (buf ?b0) + length (saved_bytes range_i) + 0)"
    using assms(2) by simp
  ultimately have sl: "snd (save_loop range_i ?b0) = None
      \<and> werr (fst (save_loop range_i ?b0)) = None
      \<and> out (fst (save_loop range_i ?b0)) @ buf (fst (save_loop range_i ?b0))
          = out ?b0 @ buf ?b0 @ saved_bytes range_i
      \<and> fits (space (fst (save_loop range_i ?b0))) (length (buf (fst (save_loop range_i ?b0))) + 0)"
    by (rule save_loop_fits)
  obtain w where w: "save_loop range_i ?b0 = (w, None)"
    using sl by (cases "save_loop range_i ?b0") simp
  from sl w have "werr w = None" and "fits (space w) (length (buf w) + 0)"
    and o: "out w @ buf w = saved_bytes range_i"
    by simp_all
  from Flush_fits [OF this(1,2)] o have fl: "out (Flush w) = saved_bytes range_i"
    by simp
  obtain entries where "created = Directory entries"
    using os_Create_Directory [OF assms(1)] by blast
  then show ?thesis
    by (simp add: Save_def assms(1) w fl child_store)
qed

lemma scan_line:
  "newline \<notin> set l \<Longrightarrow> scan cur (l @ newline # rest) = (cur @ l) # scan [] rest"
  by (induction l arbitrary: cur) auto

lemma scan_saved_bytes:
  "\<forall>entry\<in>set kvs. storable entry \<Longrightarrow>
   scan [] (saved_bytes kvs) = map (\<lambda>(name, hsum). name @ '':'' @ hsum) kvs"
proof (induction kvs)
  case Nil
  show ?case by (simp add: saved_bytes_def)
next
  case (Cons kv kvs)
  obtain name hsum where kv: "kv = (name, hsum)"
    by (cases kv)
  from Cons.prems have "newline \<notin> set (name @ '':'' @ hsum)"
    by (auto simp: kv storable_def newline_def)
  from scan_line [OF this, of "[]" "saved_bytes kvs"]
  have "scan [] (saved_bytes (kv # kvs)) = (name @ '':'' @ hsum) # scan [] (saved_bytes kvs)"
    by (simp add: saved_bytes_def kv Sprintf_entry_def)
  with Cons show ?case
    by (simp add: kv)
qed

lemma dropCR_storable:
  "storable (name, hsum) \<Longrightarrow> dropCR (name @ CHR '':'' # hsum) = name @ CHR '':'' # hsum"
  by (auto simp: storable_def dropCR_def)

lemma ScanLines_saved_bytes:
  assumes "\<forall>entry\<in>set kvs. storable entry"
  shows "ScanLines (saved_bytes kvs) = Inr (map (\<lambda>(name, hsum). name @ '':'' @ hsum) kvs)"
proof -
  have short: "\<not> list_ex (\<lambda>token. MaxScanTokenSize \<le> length token)
                  (map (\<lambda>(name, hsum). name @ '':'' @ hsum) kvs)"
    using assms by (auto simp: list_ex_iff storable_def)
  have "map dropCR (map (\<lambda>(name, hsum). name @ '':'' @ hsum) kvs)
          = map (\<lambda>(name, hsum). name @ '':'' @ hsum) kvs"
    using assms by (auto simp: dropCR_storable)
  with short show ?thesis
    by (simp add: ScanLines_def scan_saved_bytes [OF assms])
qed

lemma spec_split_first_storable:
  assumes "storable (name, hsum)"
  shows "spec_split_first (name @ CHR '':'' # hsum) = (name, hsum)"
    and "takeWhile (\<lambda>c. c \<noteq> CHR '':'') hsum = hsum"
proof -
  from assms have n: "CHR '':'' \<notin> set name" and h: "CHR '':'' \<notin> set hsum"
    by (simp_all add: storable_def)
  from n have "takeWhile (\<lambda>c. c \<noteq> CHR '':'') (name @ '':'' @ hsum) = name"
    by (subst takeWhile_append2) auto
  moreover from n have "dropWhile (\<lambda>c. c \<noteq> CHR '':'') (name @ '':'' @ hsum) = '':'' @ hsum"
    by (subst dropWhile_append2) auto
  ultimately show "spec_split_first (name @ CHR '':'' # hsum) = (name, hsum)"
    by (simp add: spec_split_first_def)
  from h show "takeWhile (\<lambda>c. c \<noteq> CHR '':'') hsum = hsum"
    by (auto simp: takeWhile_eq_all_conv)
qed

lemma foldl_insert:
  "foldl (\<lambda>m (path, fingerprint). m(path \<mapsto> fingerprint)) m kvs = m ++ map_of (rev kvs)"
  by (induction kvs arbitrary: m) (auto simp: map_add_upd_left)

lemma spec_insert_all_distinct:
  assumes "distinct (map fst kvs)"
  shows "spec_insert_all kvs = map_of kvs"
proof -
  have "map_of (rev kvs) = map_of kvs"
    using assms by (intro map_of_inject_set [THEN iffD2]) (simp_all add: rev_map [symmetric])
  then show ?thesis
    by (simp add: spec_insert_all_def foldl_insert)
qed

lemma Load_saved_bytes:
  assumes "ranges (files i) range_i"
    and "\<forall>entry\<in>set range_i. storable entry"
    and "child (root world) indexFile = Regular (saved_bytes range_i)"
  shows "Load (directory i) world = Ok i"
proof -
  let ?lines = "map (\<lambda>(name, hsum). name @ '':'' @ hsum) range_i"
  let ?cut = "\<lambda>line. (fst (spec_split_first line),
                       takeWhile (\<lambda>c. c \<noteq> CHR '':'') (snd (spec_split_first line)))"
  have colon: "\<forall>line\<in>set ?lines. CHR '':'' \<in> set line"
    by auto
  have "map ?cut ?lines = range_i"
    using assms(2) by (induction range_i) (auto simp: spec_split_first_storable)
  then have "load_loop ?lines \<lparr>directory = directory i, files = Map.empty\<rparr>
               = Ok \<lparr>directory = directory i, files = spec_insert_all range_i\<rparr>"
    using load_loop_inserts [OF colon, of "\<lparr>directory = directory i, files = Map.empty\<rparr>"]
    by (simp add: spec_insert_all_def)
  moreover have "spec_insert_all range_i = files i"
    using assms(1) by (simp add: spec_insert_all_distinct ranges_def)
  ultimately show ?thesis
    using Load_present [OF assms(3) ScanLines_saved_bytes [OF assms(2)], of "directory i"]
    by simp
qed

text \<open>
  Claim C2 (evaluation of the code where it departs from the claim). \<open>Save\<close> writes the
  lines in the order in which its \<open>range\<close> loop visits the map, and does not sort. For
  the index with the entries \<open>a:a\<close> and \<open>b:b\<close> both orders are orders the loop may take:
  one gives the file \<open>a:a\nb:b\n\<close>, the other the file \<open>b:b\na:a\n\<close>, so two saves of the
  same index need not be byte-identical and the content that the test \<open>TestIndex_Save\<close>
  expects is not the content of every save.
\<close>

theorem Save_writes_in_iteration_order:
  "ranges (files \<lparr>directory = ''d'', files = map_of [(''a'', ''a''), (''b'', ''b'')]\<rparr>)
          [(''a'', ''a''), (''b'', ''b'')]
   \<and> ranges (files \<lparr>directory = ''d'', files = map_of [(''a'', ''a''), (''b'', ''b'')]\<rparr>)
          [(''b'', ''b''), (''a'', ''a'')]
   \<and> Save \<lparr>directory = ''d'', files = map_of [(''a'', ''a''), (''b'', ''b'')]\<rparr>
           [(''a'', ''a''), (''b'', ''b'')] \<lparr>root = Directory [], room = None\<rparr>
       = (None, \<lparr>root = Directory [(''.osync'', Regular (''a:a'' @ [newline] @ ''b:b'' @ [newline]))],
                 room = None\<rparr>)
   \<and> Save \<lparr>directory = ''d'', files = map_of [(''a'', ''a''), (''b'', ''b'')]\<rparr>
           [(''b'', ''b''), (''a'', ''a'')] \<lparr>root = Directory [], room = None\<rparr>
       = (None, \<lparr>root = Directory [(''.osync'', Regular (''b:b'' @ [newline] @ ''a:a'' @ [newline]))],
                 room = None\<rparr>)"
proof -
  let ?i = "\<lparr>directory = ''d'', files = map_of [(''a'', ''a''), (''b'', ''b'')]\<rparr>"
  have r1: "ranges (files ?i) [(''a'', ''a''), (''b'', ''b'')]"
    by (simp add: ranges_def)
  have r2: "ranges (files ?i) [(''b'', ''b''), (''a'', ''a'')]"
    using ranges_map_of [of "[(''a'', ''a''), (''b'', ''b'')]" "[(''b'', ''b''), (''a'', ''a'')]"]
    by auto
  have s1: "Save ?i [(''a'', ''a''), (''b'', ''b'')] \<lparr>root = Directory [], room = None\<rparr>
       = (None, \<lparr>root = Directory [(''.osync'', Regular (''a:a'' @ [newline] @ ''b:b'' @ [newline]))],
                 room = None\<rparr>)"
    by (simp add: Save_def os_Create_def store_def indexFile_def WriteString_def
        WriteString_loop.simps Available_def defaultBufSize_def Flush_def file_Write_def
        Sprintf_entry_def)
  have s2: "Save ?i [(''b'', ''b''), (''a'', ''a'')] \<lparr>root = Directory [], room = None\<rparr>
       = (None, \<lparr>root = Directory [(''.osync'', Regular (''b:b'' @ [newline] @ ''a:a'' @ [newline]))],
                 room = None\<rparr>)"
    by (simp add: Save_def os_Create_def store_def indexFile_def WriteString_def
        WriteString_loop.simps Available_def defaultBufSize_def Flush_def file_Write_def
        Sprintf_entry_def)
  from r1 r2 s1 s2 show ?thesis
    by blast
qed

text \<open>
  Claim C3 as stated fails: the path \<open>a:b\<close> with the fingerprint \<open>c\<close> is saved as the
  line \<open>a:b:c\<close>, which \<open>Load\<close> reads back as the path \<open>a\<close> with the fingerprint \<open>b\<close>.
\<close>

theorem Save_Load_colon_counterexample:
  "ranges (files \<lparr>directory = ''d'', files = map_of [(''a:b'', ''c'')]\<rparr>) [(''a:b'', ''c'')]
   \<and> fst (Save \<lparr>directory = ''d'', files = map_of [(''a:b'', ''c'')]\<rparr> [(''a:b'', ''c'')]
              \<lparr>root = Directory [], room = None\<rparr>) = None
   \<and> Load ''d'' (snd (Save \<lparr>directory = ''d'', files = map_of [(''a:b'', ''c'')]\<rparr>
                          [(''a:b'', ''c'')] \<lparr>root = Directory [], room = None\<rparr>))
       = Ok \<lparr>directory = ''d'', files = [''a'' \<mapsto> ''b'']\<rparr>
   \<and> Load ''d'' (snd (Save \<lparr>directory = ''d'', files = map_of [(''a:b'', ''c'')]\<rparr>
                          [(''a:b'', ''c'')] \<lparr>root = Directory [], room = None\<rparr>))
       \<noteq> Ok \<lparr>directory = ''d'', files = map_of [(''a:b'', ''c'')]\<rparr>"
proof -
  let ?i = "\<lparr>directory = ''d'', files = map_of [(''a:b'', ''c'')]\<rparr>"
  have r: "ranges (files ?i) [(''a:b'', ''c'')]"
    by (simp add: ranges_def)
  have s: "Save ?i [(''a:b'', ''c'')] \<lparr>root = Directory [], room = None\<rparr>
       = (None, \<lparr>root = Directory [(''.osync'', Regular (''a:b:c'' @ [newline]))], room = None\<rparr>)"
    by (simp add: Save_def os_Create_def store_def indexFile_def WriteString_def
        WriteString_loop.simps Available_def defaultBufSize_def Flush_def file_Write_def
        Sprintf_entry_def)
  have l: "Load ''d'' \<lparr>root = Directory [(''.osync'', Regular (''a:b:c'' @ [newline]))], room = None\<rparr>
       = Ok \<lparr>directory = ''d'', files = [''a'' \<mapsto> ''b'']\<rparr>"
    by (simp add: Load_def child_def indexFile_def os_Stat_def os_IsNotExist_def readLines_def
        ScanLines_def newline_def dropCR_def MaxScanTokenSize_def)
  have ne: "[''a'' \<mapsto> ''b''] \<noteq> map_of [(''a:b'', ''c'')]"
  proof
    assume "[''a'' \<mapsto> ''b''] = map_of [(''a:b'', ''c'')]"
    then have "[''a'' \<mapsto> ''b''] ''a'' = map_of [(''a:b'', ''c'')] ''a''"
      by (rule arg_cong [where f = "\<lambda>m. m ''a''"])
    then show False
      by simp
  qed
  show ?thesis
    unfolding s using r l ne by simp
qed

text \<open>
  Claim C3, amended. Let every entry of the index be storable: neither its path nor its
  fingerprint holds a \<open>:\<close> or a newline, the fingerprint does not end in a carriage
  return, and its line is shorter than 65536 bytes. If the index file can be created and
  the device has room for the lines, then \<open>Save\<close> returns no error, whatever order it
  visits the entries in, and \<open>Load\<close> from the same directory afterwards returns the index
  that was saved, with the same entries.
\<close>

theorem Save_Load_roundtrip:
  assumes "ranges (files i) range_i"
    and "\<forall>entry\<in>set range_i. storable entry"
    and "os_Create (root world) indexFile = Inr created"
    and "fits (room world) (length (saved_bytes range_i))"
  shows "fst (Save i range_i world) = None
         \<and> Load (directory i) (snd (Save i range_i world)) = Ok i"
proof -
  from Save_fits [OF assms(3,4), of i]
  have ok: "fst (Save i range_i world) = None"
    and saved: "child (root (snd (Save i range_i world))) indexFile = Regular (saved_bytes range_i)"
    by simp_all
  from Load_saved_bytes [OF assms(1,2) saved] ok show ?thesis
    by simp
qed

theorem Save_Load_roundtrip_witness:
  "fits (Some 8) (length (saved_bytes [(''b'', ''b''), (''a'', ''a'')]))
   \<and> os_Create (Directory [(''a'', Regular ''a''), (''.osync'', Regular ''old:1'')]) indexFile
       = Inr (Directory [(''a'', Regular ''a''), (''.osync'', Regular [])])
   \<and> fst (Save \<lparr>directory = ''d'', files = map_of [(''a'', ''a''), (''b'', ''b'')]\<rparr>
              [(''b'', ''b''), (''a'', ''a'')]
              \<lparr>root = Directory [(''a'', Regular ''a''), (''.osync'', Regular ''old:1'')],
               room = Some 8\<rparr>) = None
   \<and> Load ''d'' (snd (Save \<lparr>directory = ''d'', files = map_of [(''a'', ''a''), (''b'', ''b'')]\<rparr>
                          [(''b'', ''b''), (''a'', ''a'')]
                          \<lparr>root = Directory [(''a'', Regular ''a''), (''.osync'', Regular ''old:1'')],
                           room = Some 8\<rparr>))
       = Ok \<lparr>directory = ''d'', files = map_of [(''a'', ''a''), (''b'', ''b'')]\<rparr>"
proof -
  let ?i = "\<lparr>directory = ''d'', files = map_of [(''a'', ''a''), (''b'', ''b'')]\<rparr>"
  let ?w = "\<lparr>root = Directory [(''a'', Regular ''a''), (''.osync'', Regular ''old:1'')],
             room = Some 8\<rparr>"
  have r: "ranges (files ?i) [(''b'', ''b''), (''a'', ''a'')]"
    using ranges_map_of [of "[(''a'', ''a''), (''b'', ''b'')]" "[(''b'', ''b''), (''a'', ''a'')]"]
    by auto
  have st: "\<forall>entry\<in>set [(''b'', ''b''), (''a'', ''a'')]. storable entry"
    by (simp add: storable_def newline_def MaxScanTokenSize_def)
  have c: "os_Create (root ?w) indexFile
             = Inr (Directory [(''a'', Regular ''a''), (''.osync'', Regular [])])"
    by (simp add: os_Create_def indexFile_def)
  have f: "fits (room ?w) (length (saved_bytes [(''b'', ''b''), (''a'', ''a'')]))"
    by (simp add: fits_def saved_bytes_def Sprintf_entry_def)
  from Save_Load_roundtrip [OF r st c f] c f show ?thesis
    by simp
qed

end
